theory Spec2Isabelle
  imports
    Main
    "HOL-Library.AList"
    "HOL-Library.Char_ord"
    "HOL-Library.List_Lexorder"
    "HOL-Library.Product_Lexorder"
begin

unbundle bit_operations_syntax

section \<open>Quadruples\<close>

text \<open>
  An operand of a quadruple is a variable name, an integer (a constant or a jump target)
  or Python's \<^verbatim>\<open>None\<close>. A quadruple is \<^verbatim>\<open>(op, arg1, arg2, result)\<close>; the streams
  handled by the block controller carry each quadruple with its global index.
\<close>

datatype operand = Str string | Num int | NoneV

record Quadruple =
  op :: string
  arg1 :: operand
  arg2 :: operand
  result :: operand

type_synonym iquad = "int \<times> Quadruple"
type_synonym block = "iquad list"

text \<open>
  \<^verbatim>\<open>ErrorCode\<close>, an integer enumeration of the form \<^verbatim>\<open>0xTTSS\<close>; \<open>0x5xxx\<close> is the class
  of limitation warnings.
\<close>

datatype ErrorCode =
    GENERAL_ERROR | UNKNOWN_ERROR | INTERNAL_COMPILER_ERR
  | SYNTAX_ERROR | INVALID_PARAM_FORMAT | MISSING_SEMICOLON | UNEXPECTED_TOKEN
  | TYPE_MISMATCH | INVALID_CAST | ARRAY_TYPE_VIOLATION
  | UNDEFINED_SYMBOL | UNDEFINED_VARIABLE | UNDEFINED_FUNCTION | DUPLICATE_SYMBOL
  | DIVISION_BY_ZERO | OUT_OF_MEMORY | STACK_OVERFLOW | INVALID_ARGUMENTS
  | PARAM_LIMIT | DEPRECATED_FEATURE | RECURSION_DEPTH

fun code_value :: "ErrorCode \<Rightarrow> int" where
  "code_value GENERAL_ERROR = 0x0001"
| "code_value UNKNOWN_ERROR = 0x9001"
| "code_value INTERNAL_COMPILER_ERR = 0x9002"
| "code_value SYNTAX_ERROR = 0x1001"
| "code_value INVALID_PARAM_FORMAT = 0x1002"
| "code_value MISSING_SEMICOLON = 0x1003"
| "code_value UNEXPECTED_TOKEN = 0x1004"
| "code_value TYPE_MISMATCH = 0x2001"
| "code_value INVALID_CAST = 0x2002"
| "code_value ARRAY_TYPE_VIOLATION = 0x2003"
| "code_value UNDEFINED_SYMBOL = 0x3001"
| "code_value UNDEFINED_VARIABLE = 0x3002"
| "code_value UNDEFINED_FUNCTION = 0x3003"
| "code_value DUPLICATE_SYMBOL = 0x3004"
| "code_value DIVISION_BY_ZERO = 0x4001"
| "code_value OUT_OF_MEMORY = 0x4002"
| "code_value STACK_OVERFLOW = 0x4003"
| "code_value INVALID_ARGUMENTS = 0x4004"
| "code_value PARAM_LIMIT = 0x5001"
| "code_value DEPRECATED_FEATURE = 0x5002"
| "code_value RECURSION_DEPTH = 0x5003"

text \<open>\<^verbatim>\<open>ErrorCode.is_fatal\<close>: \<^verbatim>\<open>(self.value & 0xF000) != 0x5000\<close>\<close>

definition is_fatal :: "ErrorCode \<Rightarrow> bool" where
  "is_fatal c \<longleftrightarrow> (code_value c AND 0xF000) \<noteq> 0x5000"

text \<open>
  The texts carried by the exceptions of the code generator. Most are not ASCII, so each
  is named by what it says, with the operands it interpolates: the parameter register out
  of range, the invalid parameter type and its fix suggestion (a parameter must be a
  variable name or an immediate), \<^verbatim>\<open>Division by zero\<close>, the divisor of a variable being
  the constant zero, unsupported operands, a jump target not found, an unsupported
  assignment, an unsupported return value.
\<close>

datatype message =
    MsgParamOutOfRange operand
  | MsgInvalidParamType operand
  | MsgParamVarOrImmediate
  | MsgDivisionByZero
  | MsgDivisorIsZero
  | MsgUnsupportedOperands string operand operand
  | MsgJumpTargetNotFound operand
  | MsgUnsupportedAssignment operand operand
  | MsgUnsupportedReturn operand

text \<open>
  Errors as values: the built-in exceptions the code can raise, and \<^verbatim>\<open>ErrorException\<close>
  with its message, error code and optional fix suggestion.
\<close>

datatype error =
    IndexError
  | KeyError
  | TypeError
  | AttributeError
  | RecursionError
  | ValueError message
  | ErrorException message ErrorCode "message option"



definition bind_err :: "error + 'a \<Rightarrow> ('a \<Rightarrow> error + 'b) \<Rightarrow> error + 'b" where
  "bind_err r f = (case r of Inl e \<Rightarrow> Inl e | Inr x \<Rightarrow> f x)"

section \<open>Basic block partitioning: \<^verbatim>\<open>BlockController._block_split\<close>\<close>

text \<open>
  \<^verbatim>\<open>index_to_pos = {inst_idx: pos for pos, (inst_idx, _) in enumerate(quads)}\<close>:
  a later position overwrites an earlier one with the same index, hence the \<open>rev\<close>.
\<close>

definition index_to_pos :: "iquad list \<Rightarrow> int \<rightharpoonup> nat" where
  "index_to_pos quads = map_of (rev (zip (map fst quads) [0..<length quads]))"

text \<open>The guard \<^verbatim>\<open>quad.op in {'j', 'jnz'} and quad.result is not None\<close>.\<close>

definition is_jump :: "Quadruple \<Rightarrow> bool" where
  "is_jump q \<longleftrightarrow> (op q = ''j'' \<or> op q = ''jnz'') \<and> result q \<noteq> NoneV"

text \<open>\<^verbatim>\<open>quad.result in index_to_pos\<close>: only an integer can be a key of the dictionary.\<close>

definition target_pos :: "(int \<rightharpoonup> nat) \<Rightarrow> Quadruple \<Rightarrow> nat set" where
  "target_pos m q = (case result q of Num t \<Rightarrow> (case m t of Some p \<Rightarrow> {p} | None \<Rightarrow> {}) | _ \<Rightarrow> {})"

text \<open>One iteration of the loop that collects the block starts.\<close>

definition add_starts :: "(int \<rightharpoonup> nat) \<Rightarrow> nat \<Rightarrow> nat \<times> iquad \<Rightarrow> nat set \<Rightarrow> nat set" where
  "add_starts m n = (\<lambda>(current_pos, (_, quad)) starts.
     if is_jump quad
     then (starts \<union> target_pos m quad) \<union> (if current_pos + 1 < n then {current_pos + 1} else {})
     else starts)"

definition block_starts :: "iquad list \<Rightarrow> nat set" where
  "block_starts quads =
     fold (add_starts (index_to_pos quads) (length quads)) (enumerate 0 quads) {0}"

text \<open>The Python slice \<^verbatim>\<open>quads[start:end]\<close> for non-negative bounds.\<close>

definition slice :: "'a list \<Rightarrow> nat \<Rightarrow> nat \<Rightarrow> 'a list" where
  "slice xs start end = take (end - start) (drop start xs)"

definition block_split :: "iquad list \<Rightarrow> block list" where
  "block_split quads =
     (if quads = [] then []
      else let sorted_starts = sorted_list_of_set (block_starts quads)
           in map (\<lambda>(start, end). slice quads start end)
                  (zip sorted_starts (tl sorted_starts @ [length quads])))"

text \<open>Constructor shorthand for \<^verbatim>\<open>Quadruple(op, arg1, arg2, result)\<close>.\<close>

definition Quad :: "string \<Rightarrow> operand \<Rightarrow> operand \<Rightarrow> operand \<Rightarrow> Quadruple" where
  "Quad o' a b r = \<lparr>op = o', arg1 = a, arg2 = b, result = r\<rparr>"

text \<open>
  The leader rule in the words of the specification, for comparison with \<open>block_starts\<close>:
  a position is a leader iff it is the first instruction, the target of some
  \<^verbatim>\<open>j\<close>/\<^verbatim>\<open>jnz\<close> in the slice, or the instruction immediately following a
  \<^verbatim>\<open>j\<close>/\<^verbatim>\<open>jnz\<close>.
\<close>

definition leaders_as_specified :: "iquad list \<Rightarrow> nat set" where
  "leaders_as_specified quads =
     set (filter (\<lambda>p. p = 0 \<or>
            (\<exists>i \<in> set [0..<length quads].
               (op (snd (quads ! i)) = ''j'' \<or> op (snd (quads ! i)) = ''jnz'') \<and>
               (result (snd (quads ! i)) = Num (fst (quads ! p)) \<or> p = Suc i)))
          [0..<length quads])"

section \<open>Control-flow graph: \<^verbatim>\<open>BlockController._build_cfg\<close>\<close>

text \<open>
  \<^verbatim>\<open>idx_to_block = {idx: b_idx for b_idx, block in enumerate(blocks) for idx, _ in block}\<close>.
  \<open>tagged k blocks\<close> lists the pairs \<^verbatim>\<open>(idx, b_idx)\<close> in the order the comprehension
  produces them, with the enumeration starting at \<open>k\<close>; as in \<open>index_to_pos\<close>, the last
  binding of an index wins.
\<close>

definition tagged :: "nat \<Rightarrow> block list \<Rightarrow> (int \<times> nat) list" where
  "tagged k blocks =
     concat (map (\<lambda>(b_idx, block). map (\<lambda>(idx, _). (idx, b_idx)) block) (enumerate k blocks))"

definition idx_to_block :: "block list \<Rightarrow> int \<rightharpoonup> nat" where
  "idx_to_block blocks = map_of (rev (tagged 0 blocks))"

text \<open>
  The successor set of block \<open>i\<close> (of \<open>n\<close> blocks) from its last quadruple. The
  dictionary lookup \<^verbatim>\<open>last_quad.result in idx_to_block\<close> is \<open>target_pos\<close> again. The
  value stored in the graph is \<^verbatim>\<open>list(successors)\<close>, a list in the unspecified
  iteration order of a Python set; the model keeps the set.
\<close>

definition successors :: "(int \<rightharpoonup> nat) \<Rightarrow> nat \<Rightarrow> nat \<Rightarrow> Quadruple \<Rightarrow> nat set" where
  "successors m n i last_quad =
     (let succs =
        (if op last_quad = ''j'' \<and> result last_quad \<noteq> NoneV then target_pos m last_quad
         else if op last_quad = ''jnz'' \<and> result last_quad \<noteq> NoneV
           then target_pos m last_quad \<union> (if i + 1 < n then {i + 1} else {})
         else {})
      in if succs = {} \<and> i + 1 < n then insert (i + 1) succs else succs)"

text \<open>
  The loop over \<^verbatim>\<open>enumerate(blocks)\<close>. \<^verbatim>\<open>block[-1]\<close> raises \<^verbatim>\<open>IndexError\<close> on an
  empty block. The graph \<^verbatim>\<open>{i: successors}\<close> has the keys \<open>0..<n\<close> in order and is
  kept as the list of the successor sets.
\<close>

fun cfg_loop :: "(int \<rightharpoonup> nat) \<Rightarrow> nat \<Rightarrow> (nat \<times> block) list \<Rightarrow> error + nat set list" where
  "cfg_loop m n [] = Inr []"
| "cfg_loop m n ((i, block) # rest) =
     (if block = [] then Inl IndexError
      else case cfg_loop m n rest of
             Inl e \<Rightarrow> Inl e
           | Inr cfg \<Rightarrow> Inr (successors m n i (snd (last block)) # cfg))"

definition build_cfg :: "block list \<Rightarrow> error + nat set list" where
  "build_cfg blocks = cfg_loop (idx_to_block blocks) (length blocks) (enumerate 0 blocks)"

section \<open>Stack frames: \<^verbatim>\<open>FunctionStackFrame\<close> and \<^verbatim>\<open>FunctionStack\<close>\<close>



record FunctionStackFrame =
  name :: string
  old_sp :: int
  return_addr :: int
  param_num :: int
  local_num :: int
  params :: "(string \<times> int) list"
  local_vars :: "(string \<times> int \<times> bool) list"












section \<open>Register allocation: \<^verbatim>\<open>MemController\<close>\<close>



text \<open>
  A position is \<^verbatim>\<open>(function name, block index, quadruple index in the block)\<close>; Python
  compares such tuples lexicographically, strings by code point. The binding table
  \<^verbatim>\<open>rvalues\<close> and the use-position index are dictionaries whose iteration order
  matters (the eviction scan stops at the first binding without a later use), so they are
  association lists in insertion order: a lookup is \<open>map_of\<close>, an assignment is
  \<open>AList.update\<close> (in place for a present key, appended for a new one), \<^verbatim>\<open>del\<close> is
  \<open>AList.delete\<close>. The key of a binding pairs a name with the bound operand, since
  \<^verbatim>\<open>param\<close> also binds integer constants.
\<close>

type_synonym pos = "string \<times> nat \<times> nat"
type_synonym rkey = "string \<times> operand"

text \<open>
  The function stack is one object shared by the code generator and the memory
  controller; the model keeps its frame list in the controller. \<open>None\<close> is a controller
  built without a function stack.
\<close>

record MemController =
  varregs :: "string list"
  pararegs :: "string list"
  retregs :: "string list"
  spreg :: string
  rareg :: string
  rvalues :: "(rkey \<times> string) list"
  usedregs :: "string set"
  valregs :: "string list"
  var_use_pos :: "(string \<times> pos list) list"
  function_stack :: "FunctionStackFrame list option"

definition TEMP_REGS :: "string list" where
  "TEMP_REGS = [''$t0'', ''$t1'', ''$t2'', ''$t3'', ''$t4'', ''$t5'', ''$t6'', ''$t7'', ''$t8'', ''$t9'']"

definition SAVE_REGS :: "string list" where
  "SAVE_REGS = [''$s0'', ''$s1'', ''$s2'', ''$s3'', ''$s4'', ''$s5'', ''$s6'', ''$s7'']"

definition ARG_REGS :: "string list" where
  "ARG_REGS = [''$a0'', ''$a1'', ''$a2'', ''$a3'']"

definition RET_REG :: "string list" where
  "RET_REG = [''$v0'', ''$v1'']"

text \<open>\<^verbatim>\<open>MemController.__init__\<close>\<close>

definition MemController_init :: "FunctionStackFrame list option \<Rightarrow> MemController" where
  "MemController_init fs =
     \<lparr>varregs = TEMP_REGS @ SAVE_REGS, pararegs = ARG_REGS, retregs = RET_REG,
      spreg = ''$sp'', rareg = ''$ra'', rvalues = [], usedregs = {},
      valregs = TEMP_REGS @ SAVE_REGS, var_use_pos = [], function_stack = fs\<rparr>"







section \<open>Target code: \<^verbatim>\<open>AimCodeGenerator.quad_to_code\<close>\<close>

text \<open>
  What the emitter reads of the block controller: the function entry table and the
  blocks of each function, both dictionaries in insertion order.
\<close>

record BlockController =
  func_entries :: "(string \<times> int) list"
  func_blocks :: "(string \<times> block list) list"



















section \<open>Function blocks and call order: \<^verbatim>\<open>BlockController._split_all_functions\<close>\<close>

text \<open>
  The first loop, over the entries sorted by index: the slice of a function runs from
  the position of its entry to the position of the next entry (the end of the stream for
  the last one); \<^verbatim>\<open>index_map[start_idx]\<close> raises \<^verbatim>\<open>KeyError\<close> for an entry that is not
  an index of the stream. The entry table is a dictionary, so its names are distinct and
  the result is the dictionary \<^verbatim>\<open>func_blocks\<close> in insertion order.
\<close>

fun split_entries :: "iquad list \<Rightarrow> (string \<times> int) list \<Rightarrow> error + (string \<times> block list) list" where
  "split_entries quads [] = Inr []"
| "split_entries quads [(func_name, start_idx)] =
     (case index_to_pos quads start_idx of
        None \<Rightarrow> Inl KeyError
      | Some start_pos \<Rightarrow> Inr [(func_name, block_split (slice quads start_pos (length quads)))])"
| "split_entries quads ((func_name, start_idx) # (g, next_idx) # rest) =
     (case index_to_pos quads start_idx of
        None \<Rightarrow> Inl KeyError
      | Some start_pos \<Rightarrow>
          (case index_to_pos quads next_idx of
             None \<Rightarrow> Inl KeyError
           | Some end_pos \<Rightarrow>
               bind_err (split_entries quads ((g, next_idx) # rest))
                 (\<lambda>r. Inr ((func_name, block_split (slice quads start_pos end_pos)) # r))))"

text \<open>
  The call graph maps a callee to the set of its callers: \<open>caller\<close> calls \<open>callee\<close> when
  one of its quadruples is a \<^verbatim>\<open>call\<close> with that name as \<^verbatim>\<open>arg1\<close>, and only names of
  \<^verbatim>\<open>func_blocks\<close> are recorded as callees. \<open>callers\<close> is
  \<^verbatim>\<open>call_graph.get(f, set())\<close>.
\<close>

definition calls :: "block list \<Rightarrow> string \<Rightarrow> bool" where
  "calls blocks callee \<longleftrightarrow>
     (\<exists>iq \<in> set (concat blocks). op (snd iq) = ''call'' \<and> arg1 (snd iq) = Str callee)"

definition callers :: "(string \<times> block list) list \<Rightarrow> string \<Rightarrow> string set" where
  "callers fbs f =
     (if f \<in> set (map fst fbs)
      then set (map fst (filter (\<lambda>(caller, blocks). calls blocks f) fbs))
      else {})"

text \<open>
  The depth-first \<^verbatim>\<open>visit\<close> on the state \<^verbatim>\<open>(order, visited)\<close>. The loop over the callers
  iterates a Python set, whose order is not specified: \<open>iter\<close> stands for it, any function
  that lists the elements of a finite set. The recursion is bounded by a depth, as the
  interpreter bounds it; \<open>None\<close> is the depth exhausted.
\<close>

fun visit ::
  "(string set \<Rightarrow> string list) \<Rightarrow> (string \<times> block list) list \<Rightarrow> nat \<Rightarrow> string
     \<Rightarrow> string list \<times> string set \<Rightarrow> (string list \<times> string set) option"
and visit_callers ::
  "(string set \<Rightarrow> string list) \<Rightarrow> (string \<times> block list) list \<Rightarrow> nat \<Rightarrow> string list
     \<Rightarrow> string list \<times> string set \<Rightarrow> (string list \<times> string set) option" where
  "visit iter fb 0 f st = None"
| "visit iter fb (Suc depth) f (order, visited) =
     (if f \<in> visited then Some (order, visited)
      else case visit_callers iter fb depth (iter (callers fb f)) (order, insert f visited) of
             None \<Rightarrow> None
           | Some (order', visited') \<Rightarrow> Some (order' @ [f], visited'))"
| "visit_callers iter fb depth [] st = Some st"
| "visit_callers iter fb depth (caller # rest) st =
     (case visit iter fb depth caller st of
        None \<Rightarrow> None
      | Some st' \<Rightarrow> visit_callers iter fb depth rest st')"

text \<open>
  \<^verbatim>\<open>[visit(f) for f in func_blocks if f not in visited]\<close>: the functions in insertion
  order, each visited unless an earlier visit reached it.
\<close>

fun visit_rest ::
  "(string set \<Rightarrow> string list) \<Rightarrow> (string \<times> block list) list \<Rightarrow> nat \<Rightarrow> string list
     \<Rightarrow> string list \<times> string set \<Rightarrow> (string list \<times> string set) option" where
  "visit_rest iter fb depth [] st = Some st"
| "visit_rest iter fb depth (f # fs) (order, visited) =
     (if f \<notin> visited
      then (case visit iter fb depth f (order, visited) of
              None \<Rightarrow> None
            | Some st' \<Rightarrow> visit_rest iter fb depth fs st')
      else visit_rest iter fb depth fs (order, visited))"

text \<open>
  The order of the functions: \<^verbatim>\<open>main\<close> is visited first when it is a function, then
  the others. A visit nests at most one level per function not yet visited, and one more for
  the call that finds its function visited, so the depth \<open>length func_blocks + 1\<close> is never
  exhausted (lemma \<open>call_order_total\<close> below).
\<close>

definition call_order ::
  "(string set \<Rightarrow> string list) \<Rightarrow> (string \<times> block list) list \<Rightarrow> string list option" where
  "call_order iter fbs =
     (let depth = Suc (length fbs);
          start = (if ''main'' \<in> set (map fst fbs)
                   then visit iter fbs depth ''main'' ([], {})
                   else Some ([], {}))
      in case start of
           None \<Rightarrow> None
         | Some st \<Rightarrow> map_option fst (visit_rest iter fbs depth (map fst fbs) st))"

text \<open>\<^verbatim>\<open>{f: func_blocks[f] for f in order}\<close>\<close>

fun order_blocks :: "(string \<times> block list) list \<Rightarrow> string list \<Rightarrow> error + (string \<times> block list) list" where
  "order_blocks fb [] = Inr []"
| "order_blocks fb (f # fs) =
     (case map_of fb f of
        None \<Rightarrow> Inl KeyError
      | Some blocks \<Rightarrow> bind_err (order_blocks fb fs) (\<lambda>r. Inr ((f, blocks) # r)))"

text \<open>
  \<^verbatim>\<open>_split_all_functions\<close>, from the quadruple stream and the function entry table.
\<close>

definition split_all_functions ::
  "(string set \<Rightarrow> string list) \<Rightarrow> iquad list \<Rightarrow> (string \<times> int) list
     \<Rightarrow> error + (string \<times> block list) list" where
  "split_all_functions iter quads entries =
     bind_err (split_entries quads (sort_key snd entries))
       (\<lambda>fbs.
          case call_order iter fbs of
            None \<Rightarrow> Inl RecursionError
          | Some order \<Rightarrow> order_blocks fbs order)"

text \<open>
  The resolver's output in the words of the specification, for comparison: callees
  first, so \<open>[f, main]\<close> for \<^verbatim>\<open>main\<close> calling \<open>f\<close>.
\<close>

definition order_as_specified :: "string \<Rightarrow> string list" where
  "order_as_specified f = [f, ''main'']"

section \<open>The generator: \<^verbatim>\<open>build_var_use_pos\<close> and \<^verbatim>\<open>generate_code\<close>\<close>

text \<open>
  \<^verbatim>\<open>build_var_use_pos\<close>: \<^verbatim>\<open>filter(None, ...)\<close> drops \<^verbatim>\<open>None\<close>, \<open>0\<close> and the empty
  string, and only strings are recorded. The index is a \<^verbatim>\<open>defaultdict(list)\<close>: a new
  variable is appended with its first position, a known one gets the position added.
\<close>

definition quad_uses :: "Quadruple \<Rightarrow> string list" where
  "quad_uses quad =
     concat (map (\<lambda>v. case v of Str s \<Rightarrow> (if s = [] then [] else [s]) | _ \<Rightarrow> [])
                 [arg1 quad, arg2 quad, result quad])"

definition add_use :: "string \<times> pos \<Rightarrow> (string \<times> pos list) list \<Rightarrow> (string \<times> pos list) list" where
  "add_use = (\<lambda>(var, p) up.
     case map_of up var of
       None \<Rightarrow> up @ [(var, [p])]
     | Some l \<Rightarrow> AList.update var (l @ [p]) up)"

definition build_var_use_pos :: "(string \<times> block list) list \<Rightarrow> (string \<times> pos list) list" where
  "build_var_use_pos fbs =
     fold add_use
       (concat (map (\<lambda>(func_name, blocks).
          concat (map (\<lambda>(block_idx, block).
            concat (map (\<lambda>(quad_idx, (idx, quad)).
                           map (\<lambda>var. (var, (func_name, block_idx, quad_idx))) (quad_uses quad))
                        (enumerate 0 block)))
            (enumerate 0 blocks)))
          fbs))
       []"







text \<open>
  The generator as \<^verbatim>\<open>AimCodeGenerator.__init__\<close> builds it from the quadruple stream:
  the block controller with the function blocks in call order, and a fresh memory
  controller with an empty function stack and the use-position index. The function entry
  table comes from the symbol table and is taken as given.
\<close>

definition AimCodeGenerator_init ::
  "(string set \<Rightarrow> string list) \<Rightarrow> iquad list \<Rightarrow> (string \<times> int) list
     \<Rightarrow> error + (BlockController \<times> MemController)" where
  "AimCodeGenerator_init iter quads entries =
     bind_err (split_all_functions iter quads entries)
       (\<lambda>fbs. Inr (\<lparr>func_entries = entries, func_blocks = fbs\<rparr>,
                    (MemController_init (Some []))\<lparr>var_use_pos := build_var_use_pos fbs\<rparr>))"

section \<open>Properties of the basic block partitioner\<close>

lemma fold_add_starts:
  "fold (add_starts m n) xs S =
     S \<union> {x. \<exists>p i q. (p, (i, q)) \<in> set xs \<and> is_jump q \<and>
                 (x \<in> target_pos m q \<or> (x = Suc p \<and> Suc p < n))}"
proof (induction xs arbitrary: S)
  case Nil
  then show ?case by simp
next
  case (Cons a xs)
  obtain p i q where a: "a = (p, (i, q))" by (cases a) auto
  show ?case unfolding fold_simps Cons.IH
    by (auto simp: a add_starts_def)
qed

lemma index_to_pos_distinct:
  assumes "distinct (map fst quads)"
  shows "index_to_pos quads t = Some p \<longleftrightarrow> p < length quads \<and> fst (quads ! p) = t"
proof -
  let ?z = "zip (map fst quads) [0..<length quads]"
  have d: "distinct (map fst ?z)" using assms by simp
  have "index_to_pos quads t = Some p \<longleftrightarrow> (t, p) \<in> set ?z"
    unfolding index_to_pos_def using d
    by (metis distinct_rev map_of_eq_Some_iff rev_map set_rev)
  also have "\<dots> \<longleftrightarrow> p < length quads \<and> fst (quads ! p) = t"
  proof
    assume "(t, p) \<in> set ?z"
    then show "p < length quads \<and> fst (quads ! p) = t"
      by (auto simp: in_set_zip)
  next
    assume h: "p < length quads \<and> fst (quads ! p) = t"
    then have "?z ! p = (t, p)" by simp
    moreover have "p < length ?z" using h by simp
    ultimately show "(t, p) \<in> set ?z" by (metis nth_mem)
  qed
  finally show ?thesis .
qed

lemma index_to_pos_bound: "index_to_pos quads t = Some p \<Longrightarrow> p < length quads"
  unfolding index_to_pos_def by (auto dest!: map_of_SomeD simp: in_set_zip)

lemma target_pos_bound:
  "p \<in> target_pos (index_to_pos quads) q \<Longrightarrow> p < length quads"
  by (auto simp: target_pos_def split: operand.splits option.splits dest: index_to_pos_bound)

lemma block_starts_eq:
  "block_starts quads = {0} \<union>
     {p. \<exists>i < length quads. is_jump (snd (quads ! i)) \<and>
            (p \<in> target_pos (index_to_pos quads) (snd (quads ! i)) \<or> (p = Suc i \<and> Suc i < length quads))}"
proof -
  have e: "(p, (i, q)) \<in> set (enumerate 0 quads) \<longleftrightarrow> p < length quads \<and> quads ! p = (i, q)" for p i q
    by (auto simp: in_set_enumerate_eq)
  have "(\<exists>p i q. (p < length quads \<and> quads ! p = (i, q)) \<and> is_jump q \<and> P p q)
        \<longleftrightarrow> (\<exists>p < length quads. is_jump (snd (quads ! p)) \<and> P p (snd (quads ! p)))" for P
    by (metis prod.collapse snd_conv)
  then show ?thesis
    unfolding block_starts_def fold_add_starts e by simp
qed

lemma block_starts_bound:
  assumes "quads \<noteq> []" "p \<in> block_starts quads" shows "p < length quads"
  using assms unfolding block_starts_eq
  by (auto dest: target_pos_bound)

lemma finite_block_starts: "quads \<noteq> [] \<Longrightarrow> finite (block_starts quads)"
  using block_starts_bound[of quads] by (metis finite_nat_set_iff_bounded)

lemma concat_slices:
  "sorted (s # ss) \<Longrightarrow> \<forall>x \<in> set (s # ss). x \<le> length xs \<Longrightarrow>
   concat (map (\<lambda>(a, b). slice xs a b) (zip (s # ss) (ss @ [length xs]))) = drop s xs"
proof (induction ss arbitrary: s)
  case Nil
  then show ?case by (simp add: slice_def)
next
  case (Cons t ss)
  have st: "s \<le> t" using Cons.prems(1) by simp
  have "concat (map (\<lambda>(a, b). slice xs a b) (zip (t # ss) (ss @ [length xs]))) = drop t xs"
    using Cons.prems by (intro Cons.IH) auto
  moreover have "slice xs s t @ drop t xs = drop s xs"
    using st by (simp add: slice_def) (metis add_diff_cancel_left' drop_drop le_Suc_ex append_take_drop_id add.commute)
  ultimately show ?case by simp
qed

lemma block_split_concat: "concat (block_split quads) = quads"
proof (cases "quads = []")
  case True
  then show ?thesis by (simp add: block_split_def)
next
  case False
  let ?S = "block_starts quads"
  let ?ss = "sorted_list_of_set ?S"
  have fin: "finite ?S" using False by (rule finite_block_starts)
  have z: "0 \<in> ?S" by (simp add: block_starts_eq)
  then have ne: "?ss \<noteq> []" using fin by auto
  then obtain s rest where ss: "?ss = s # rest" by (cases ?ss) auto
  have srt: "sorted (s # rest)" using ss by (metis sorted_sorted_list_of_set)
  have "0 \<in> set (s # rest)" using z fin ss by (metis set_sorted_list_of_set)
  then have s0: "s = 0" using srt by auto
  have bnd: "\<forall>x \<in> set (s # rest). x \<le> length quads"
    using block_starts_bound[OF False] fin ss
    by (metis less_imp_le_nat set_sorted_list_of_set)
  have "concat (block_split quads) =
        concat (map (\<lambda>(a, b). slice quads a b) (zip (s # rest) (rest @ [length quads])))"
    using False ss by (simp add: block_split_def)
  also have "\<dots> = drop s quads" using srt bnd by (rule concat_slices)
  finally show ?thesis using s0 by simp
qed

lemma block_split_length:
  "quads \<noteq> [] \<Longrightarrow> length (block_split quads) = card (block_starts quads)"
  by (simp add: block_split_def Let_def)

lemma zip_starts_increasing:
  "sorted_wrt (<) (s # ss) \<Longrightarrow> \<forall>x \<in> set (s # ss). x < (N::nat) \<Longrightarrow>
   \<forall>(a, b) \<in> set (zip (s # ss) (ss @ [N])). a < b \<and> b \<le> N"
  by (induction ss arbitrary: s) auto

lemma block_split_nonempty: "[] \<notin> set (block_split quads)"
proof (cases "quads = []")
  case True
  then show ?thesis by (simp add: block_split_def)
next
  case False
  let ?ss = "sorted_list_of_set (block_starts quads)"
  have fin: "finite (block_starts quads)" using False by (rule finite_block_starts)
  have "0 \<in> block_starts quads" by (simp add: block_starts_eq)
  then have "?ss \<noteq> []" using fin by auto
  then obtain s rest where ss: "?ss = s # rest" by (cases ?ss) auto
  have srt: "sorted_wrt (<) (s # rest)"
    using ss by (metis strict_sorted_list_of_set)
  have bnd: "\<forall>x \<in> set (s # rest). x < length quads"
    using block_starts_bound[OF False] fin ss by (metis set_sorted_list_of_set)
  have inc: "\<forall>(a, b) \<in> set (zip (s # rest) (rest @ [length quads])). a < b \<and> b \<le> length quads"
    using zip_starts_increasing[OF srt bnd] .
  have "slice quads a b \<noteq> []" if "(a, b) \<in> set (zip (s # rest) (rest @ [length quads]))" for a b
    using inc that by (auto simp: slice_def)
  then show ?thesis
    using False ss by (auto simp: block_split_def simp del: zip_Cons_Cons) metis
qed

lemma slice_nth: "e \<le> length xs \<Longrightarrow> slice xs s e = map ((!) xs) [s..<e]"
  unfolding slice_def by (rule nth_equalityI) auto

lemma zip_next:
  "zip ss (tl ss @ [n]) =
     map (\<lambda>k. (ss ! k, if Suc k < length ss then ss ! Suc k else n)) [0..<length ss]"
proof (rule nth_equalityI)
  show "length (zip ss (tl ss @ [n])) =
        length (map (\<lambda>k. (ss ! k, if Suc k < length ss then ss ! Suc k else n)) [0..<length ss])"
    by (cases ss) (simp_all del: upt_Suc)
next
  fix i assume "i < length (zip ss (tl ss @ [n]))"
  then have i: "i < length ss" by simp
  have "(tl ss @ [n]) ! i = (if Suc i < length ss then ss ! Suc i else n)"
    using i by (cases ss) (auto simp: nth_append)
  moreover have "zip ss (tl ss @ [n]) ! i = (ss ! i, (tl ss @ [n]) ! i)"
    using i by (cases ss) (simp_all del: upt_Suc)
  moreover have "map (\<lambda>k. (ss ! k, if Suc k < length ss then ss ! Suc k else n)) [0..<length ss] ! i
        = (ss ! i, if Suc i < length ss then ss ! Suc i else n)"
    using i by (simp del: upt_Suc)
  ultimately show "zip ss (tl ss @ [n]) ! i =
        map (\<lambda>k. (ss ! k, if Suc k < length ss then ss ! Suc k else n)) [0..<length ss] ! i"
    by simp
qed

lemma block_split_blocks:
  assumes "quads \<noteq> []"
  shows "block_split quads =
           map (\<lambda>k. map ((!) quads)
                    [sorted_list_of_set (block_starts quads) ! k ..<
                     (if Suc k < card (block_starts quads)
                      then sorted_list_of_set (block_starts quads) ! Suc k
                      else length quads)])
               [0..<card (block_starts quads)]"
proof -
  let ?ss = "sorted_list_of_set (block_starts quads)"
  have fin: "finite (block_starts quads)" using assms by (rule finite_block_starts)
  have len: "length ?ss = card (block_starts quads)" by simp
  have bnd: "?ss ! k < length quads" if "k < length ?ss" for k
    using block_starts_bound[OF assms] fin that by (metis nth_mem set_sorted_list_of_set)
  have "block_split quads =
        map (\<lambda>(s, e). slice quads s e)
            (map (\<lambda>k. (?ss ! k, if Suc k < length ?ss then ?ss ! Suc k else length quads))
                 [0..<length ?ss])"
    using assms unfolding block_split_def zip_next[symmetric] by (simp add: Let_def)
  also have "\<dots> = map (\<lambda>k. slice quads (?ss ! k)
                        (if Suc k < length ?ss then ?ss ! Suc k else length quads))
                     [0..<length ?ss]"
    by (simp add: comp_def)
  also have "\<dots> = map (\<lambda>k. map ((!) quads)
                        [?ss ! k ..< (if Suc k < length ?ss then ?ss ! Suc k else length quads)])
                     [0..<length ?ss]"
  proof (rule map_cong[OF refl])
    fix k assume "k \<in> set [0..<length ?ss]"
    then have k: "k < length ?ss" by simp
    have "(if Suc k < length ?ss then ?ss ! Suc k else length quads) \<le> length quads"
      using bnd[of "Suc k"] by (auto simp: less_imp_le)
    then show "slice quads (?ss ! k) (if Suc k < length ?ss then ?ss ! Suc k else length quads)
          = map ((!) quads) [?ss ! k ..< (if Suc k < length ?ss then ?ss ! Suc k else length quads)]"
      by (rule slice_nth)
  qed
  finally show ?thesis unfolding len .
qed


text \<open>
  Claim C4, as the code has it. A \<^verbatim>\<open>j\<close>/\<^verbatim>\<open>jnz\<close> counts as a jump only when its
  target field is not \<^verbatim>\<open>None\<close> (the guard of \<open>is_jump\<close>). For every non-empty slice
  with pairwise distinct quadruple indices, the leaders \<open>L\<close> are exactly: the first
  position, every position in the slice whose index is the target of such a jump, and
  every position immediately following such a jump. The partitioner returns one block
  per leader: the \<open>k\<close>-th block holds the quadruples from the \<open>k\<close>-th leader, in
  ascending order, up to the next leader (the end of the slice for the last one). So
  there are as many blocks as leaders, no block is empty, and the concatenation of the
  blocks is the slice. An empty slice yields no blocks.
\<close>

theorem block_split_leaders_partition:
  fixes quads :: "iquad list"
  defines "L \<equiv> {p. p < length quads \<and>
               (p = 0 \<or> (\<exists>i < length quads. is_jump (snd (quads ! i)) \<and>
                  (result (snd (quads ! i)) = Num (fst (quads ! p)) \<or> p = Suc i)))}"
  assumes "quads \<noteq> []" and "distinct (map fst quads)"
  shows "block_starts quads = L
         \<and> block_split quads =
             map (\<lambda>k. map ((!) quads)
                      [sorted_list_of_set L ! k ..<
                       (if Suc k < card L then sorted_list_of_set L ! Suc k else length quads)])
                 [0..<card L]
         \<and> length (block_split quads) = card L
         \<and> concat (block_split quads) = quads
         \<and> [] \<notin> set (block_split quads)
         \<and> block_split [] = []"
proof -
  have a: "index_to_pos quads (fst (quads ! p)) = Some p" if "p < length quads" for p
    using index_to_pos_distinct[OF assms(3)] that by blast
  have b: "p < length quads \<and> fst (quads ! p) = t" if "index_to_pos quads t = Some p" for p t
    using index_to_pos_distinct[OF assms(3)] that by blast
  have t: "p \<in> target_pos (index_to_pos quads) q \<longleftrightarrow>
           p < length quads \<and> result q = Num (fst (quads ! p))" for p q
  proof (cases "result q")
    case (Num t)
    show ?thesis
    proof (cases "index_to_pos quads t")
      case None
      have tp: "target_pos (index_to_pos quads) q = {}"
        using Num None by (simp add: target_pos_def)
      have "False" if "p < length quads" "t = fst (quads ! p)"
        using a[OF that(1)] None that(2) by simp
      then show ?thesis unfolding tp using Num by auto
    next
      case (Some p')
      have tp: "target_pos (index_to_pos quads) q = {p'}"
        using Num Some by (simp add: target_pos_def)
      have "p = p'" if "p < length quads" "t = fst (quads ! p)"
        using a[OF that(1)] Some that(2) by simp
      then show ?thesis unfolding tp using Num b[OF Some] by auto
    qed
  qed (auto simp: target_pos_def)
  have starts: "block_starts quads = L"
    unfolding block_starts_eq t L_def using assms(2) by auto
  have "block_split [] = []" by (simp add: block_split_def)
  then show ?thesis
    using starts block_split_blocks[OF assms(2)] block_split_length[OF assms(2)]
      block_split_concat[of quads] block_split_nonempty[of quads]
    by simp
qed

theorem block_split_leaders_partition_witness:
  "(let quads = [(4, Quad ''='' (Num 5) NoneV (Str ''x'')),
                 (5, Quad ''jnz'' (Str ''x'') NoneV (Num 7)),
                 (6, Quad ''j'' NoneV NoneV (Num 4)),
                 (7, Quad ''RETURN'' NoneV NoneV (Str ''$ret_reg''))]
    in quads \<noteq> [] \<and> distinct (map fst quads) \<and>
       block_starts quads = {0, 2, 3} \<and>
       block_split quads =
         [[(4, Quad ''='' (Num 5) NoneV (Str ''x'')), (5, Quad ''jnz'' (Str ''x'') NoneV (Num 7))],
          [(6, Quad ''j'' NoneV NoneV (Num 4))],
          [(7, Quad ''RETURN'' NoneV NoneV (Str ''$ret_reg''))]] \<and>
       length (block_split quads) = 3 \<and>
       concat (block_split quads) = quads)"
proof -
  define quads where "quads = [(4::int, Quad ''='' (Num 5) NoneV (Str ''x'')),
                 (5, Quad ''jnz'' (Str ''x'') NoneV (Num 7)),
                 (6, Quad ''j'' NoneV NoneV (Num 4)),
                 (7, Quad ''RETURN'' NoneV NoneV (Str ''$ret_reg''))]"
  define L where "L = {p. p < length quads \<and>
               (p = 0 \<or> (\<exists>i < length quads. is_jump (snd (quads ! i)) \<and>
                  (result (snd (quads ! i)) = Num (fst (quads ! p)) \<or> p = Suc i)))}"
  have h: "quads \<noteq> []" "distinct (map fst quads)" by (simp_all add: quads_def)
  note th = block_split_leaders_partition[OF h, folded L_def]
  have s: "block_starts quads = {0, 2, 3}"
    by (simp add: quads_def block_starts_def add_starts_def is_jump_def Quad_def
        target_pos_def index_to_pos_def insert_commute numeral_2_eq_2 numeral_3_eq_3)
  then have L: "L = {0, 2, 3}" using th by simp
  have ss: "sorted_list_of_set L = [0, 2, 3]" unfolding L by simp
  have c: "card L = 3" unfolding L by simp
  have "block_split quads =
             map (\<lambda>k. map ((!) quads)
                      [sorted_list_of_set L ! k ..<
                       (if Suc k < card L then sorted_list_of_set L ! Suc k else length quads)])
                 [0..<card L]"
    using th by simp
  also have "\<dots> = [[quads ! 0, quads ! 1], [quads ! 2], [quads ! 3]]"
    unfolding ss c by (simp add: upt_rec numeral_3_eq_3 numeral_2_eq_2 quads_def)
  finally have b: "block_split quads = [[quads ! 0, quads ! 1], [quads ! 2], [quads ! 3]]" .
  show ?thesis using h s b unfolding quads_def Let_def by simp
qed

text \<open>
  Claim C4 as stated fails: an unresolved jump (target \<^verbatim>\<open>None\<close>) is a
  \<^verbatim>\<open>j\<close>, but the instruction after it does not start a block.
\<close>

theorem block_split_leaders_counterexample:
  "(let quads = [(0, Quad ''j'' NoneV NoneV NoneV),
                 (1, Quad ''RETURN'' NoneV NoneV (Str ''$ret_reg''))]
    in leaders_as_specified quads = {0, 1} \<and> block_starts quads = {0} \<and>
       block_split quads = [quads] \<and>
       length (block_split quads) \<noteq> card (leaders_as_specified quads))"
proof -
  define quads where "quads = [(0::int, Quad ''j'' NoneV NoneV NoneV),
                 (1, Quad ''RETURN'' NoneV NoneV (Str ''$ret_reg''))]"
  have l: "leaders_as_specified quads = {0, 1}"
    unfolding leaders_as_specified_def quads_def
    by (auto simp: Quad_def less_Suc_eq)
  have s: "block_starts quads = {0}"
    by (simp add: quads_def block_starts_def add_starts_def is_jump_def Quad_def)
  have b: "block_split quads = [quads]"
    by (simp add: block_split_def s slice_def) (simp add: quads_def)
  show ?thesis using l s b unfolding quads_def Let_def by simp
qed

section \<open>Properties of the control-flow graph\<close>

lemma cfg_loop_ok:
  assumes "[] \<notin> set blocks"
  shows "cfg_loop m n (enumerate k blocks) =
         Inr (map (\<lambda>(i, b). successors m n i (snd (last b))) (enumerate k blocks))"
  using assms by (induction blocks arbitrary: k) auto

lemma build_cfg_ok:
  assumes "[] \<notin> set blocks"
  shows "build_cfg blocks =
         Inr (map (\<lambda>i. successors (idx_to_block blocks) (length blocks) i (snd (last (blocks ! i))))
                  [0..<length blocks])"
proof -
  have "map (\<lambda>(i, b). successors m n i (snd (last b))) (enumerate 0 blocks) =
        map (\<lambda>i. successors m n i (snd (last (blocks ! i)))) [0..<length blocks]" for m n
    by (rule nth_equalityI) (auto simp: nth_enumerate_eq)
  then show ?thesis unfolding build_cfg_def cfg_loop_ok[OF assms] by simp
qed

lemma map_of_rev_distinct:
  assumes "distinct (map fst xs)"
  shows "map_of (rev xs) k = Some v \<longleftrightarrow> (k, v) \<in> set xs"
proof -
  have "distinct (map fst (rev xs))" using assms by (simp add: rev_map[symmetric])
  then have "map_of (rev xs) k = Some v \<longleftrightarrow> (k, v) \<in> set (rev xs)"
    by (rule map_of_eq_Some_iff)
  then show ?thesis by simp
qed

lemma tagged_simps:
  "tagged k [] = []"
  "tagged k (b # bs) = map (\<lambda>x. (fst x, k)) b @ tagged (Suc k) bs"
  by (simp_all add: tagged_def case_prod_beta)

lemma map_fst_tagged: "map fst (tagged k bs) = map fst (concat bs)"
  by (induction bs arbitrary: k) (simp_all add: tagged_simps comp_def)

lemma set_tagged:
  "(t, b) \<in> set (tagged k bs) \<longleftrightarrow> k \<le> b \<and> b - k < length bs \<and> t \<in> fst ` set (bs ! (b - k))"
proof (induction bs arbitrary: k)
  case Nil
  then show ?case by (simp add: tagged_simps)
next
  case (Cons a bs)
  show ?case
  proof (cases "b = k")
    case True
    have "(t, b) \<notin> set (tagged (Suc k) bs)" unfolding Cons.IH using True by simp
    then show ?thesis using True by (auto simp: tagged_simps)
  next
    case False
    have "(t, b) \<in> set (tagged k (a # bs)) \<longleftrightarrow> (t, b) \<in> set (tagged (Suc k) bs)"
      using False by (auto simp: tagged_simps)
    also have "\<dots> \<longleftrightarrow> Suc k \<le> b \<and> b - Suc k < length bs \<and> t \<in> fst ` set (bs ! (b - Suc k))"
      by (rule Cons.IH)
    also have "\<dots> \<longleftrightarrow> k \<le> b \<and> b - k < length (a # bs) \<and> t \<in> fst ` set ((a # bs) ! (b - k))"
    proof (cases "k < b")
      case True
      then obtain d where d: "b - k = Suc d" "b - Suc k = d" by (cases "b - k") auto
      show ?thesis using True by (simp add: d)
    next
      case False
      then show ?thesis using \<open>b \<noteq> k\<close> by auto
    qed
    finally show ?thesis .
  qed
qed

lemma idx_to_block_distinct:
  assumes "distinct (map fst (concat blocks))"
  shows "idx_to_block blocks t = Some b \<longleftrightarrow> b < length blocks \<and> t \<in> fst ` set (blocks ! b)"
proof -
  have d: "distinct (map fst (tagged 0 blocks))" using assms by (simp add: map_fst_tagged)
  have "idx_to_block blocks t = Some b \<longleftrightarrow> (t, b) \<in> set (tagged 0 blocks)"
    unfolding idx_to_block_def by (rule map_of_rev_distinct[OF d])
  then show ?thesis by (simp add: set_tagged)
qed

lemma target_block_distinct:
  assumes "distinct (map fst (concat blocks))"
  shows "target_pos (idx_to_block blocks) q =
         {b. b < length blocks \<and> (\<exists>t. result q = Num t \<and> t \<in> fst ` set (blocks ! b))}"
proof (cases "result q")
  case (Num t)
  show ?thesis
  proof (cases "idx_to_block blocks t")
    case None
    have "False" if "b < length blocks" "t \<in> fst ` set (blocks ! b)" for b
      using idx_to_block_distinct[OF assms, of t b] that None by simp
    then show ?thesis using Num None by (auto simp: target_pos_def)
  next
    case (Some b')
    have "b = b'" if "b < length blocks" "t \<in> fst ` set (blocks ! b)" for b
      using idx_to_block_distinct[OF assms, of t b] that Some by simp
    moreover have "b' < length blocks \<and> t \<in> fst ` set (blocks ! b')"
      using idx_to_block_distinct[OF assms, of t b'] Some by simp
    ultimately show ?thesis using Num Some by (auto simp: target_pos_def)
  qed
qed (auto simp: target_pos_def)

lemma card_target_pos: "card (target_pos m q) \<le> 1"
  by (auto simp: target_pos_def split: operand.splits option.splits)

text \<open>
  Claim C5, as the code has it. For a list of non-empty blocks with pairwise distinct
  quadruple indices the graph is built, with one successor set per block. Write
  \<open>target\<close> for the set of blocks containing the jump target of the last quadruple of
  block \<open>i\<close> (empty when the target is not an index of the function) and \<open>fall\<close> for
  \<open>{i + 1}\<close> when that block exists, else empty. Every block with a following block has
  at least one successor. A block ending in \<^verbatim>\<open>jnz\<close> with a target field other than
  \<^verbatim>\<open>None\<close> has the successors \<open>target \<union> fall\<close>: exactly two when the target lies in
  the function, the following block exists and is not the target block itself. A block
  ending in \<^verbatim>\<open>j\<close> goes to the target block, or falls through when the target is not
  in the function. Every other block, \<^verbatim>\<open>RETURN\<close> included, has the successors
  \<open>fall\<close>; so the last block has none unless it ends in a jump into the function.
\<close>

theorem build_cfg_successors:
  assumes "[] \<notin> set blocks" and "distinct (map fst (concat blocks))"
  shows "\<exists>cfg. build_cfg blocks = Inr cfg \<and> length cfg = length blocks \<and>
    (\<forall>i < length blocks.
       let q = snd (last (blocks ! i));
           target = {b. b < length blocks \<and> (\<exists>t. result q = Num t \<and> t \<in> fst ` set (blocks ! b))};
           fall = (if Suc i < length blocks then {Suc i} else {})
       in (Suc i < length blocks \<longrightarrow> cfg ! i \<noteq> {}) \<and>
          (op q = ''jnz'' \<and> result q \<noteq> NoneV \<longrightarrow>
             cfg ! i = target \<union> fall \<and>
             (card (cfg ! i) = 2 \<longleftrightarrow> target \<noteq> {} \<and> Suc i < length blocks \<and> target \<noteq> {Suc i})) \<and>
          (op q = ''j'' \<and> result q \<noteq> NoneV \<longrightarrow> cfg ! i = (if target = {} then fall else target)) \<and>
          (\<not> ((op q = ''j'' \<or> op q = ''jnz'') \<and> result q \<noteq> NoneV) \<longrightarrow> cfg ! i = fall) \<and>
          (op q = ''RETURN'' \<and> Suc i < length blocks \<longrightarrow> cfg ! i = {Suc i}) \<and>
          card (cfg ! i) \<le> 2)"
proof -
  let ?n = "length blocks"
  let ?m = "idx_to_block blocks"
  let ?cfg = "map (\<lambda>i. successors ?m ?n i (snd (last (blocks ! i)))) [0..<?n]"
  have ok: "build_cfg blocks = Inr ?cfg" by (rule build_cfg_ok[OF assms(1)])
  have main: "(Suc i < ?n \<longrightarrow> S \<noteq> {}) \<and>
          (op q = ''jnz'' \<and> result q \<noteq> NoneV \<longrightarrow>
             S = target \<union> fall \<and>
             (card S = 2 \<longleftrightarrow> target \<noteq> {} \<and> Suc i < ?n \<and> target \<noteq> {Suc i})) \<and>
          (op q = ''j'' \<and> result q \<noteq> NoneV \<longrightarrow> S = (if target = {} then fall else target)) \<and>
          (\<not> ((op q = ''j'' \<or> op q = ''jnz'') \<and> result q \<noteq> NoneV) \<longrightarrow> S = fall) \<and>
          (op q = ''RETURN'' \<and> Suc i < ?n \<longrightarrow> S = {Suc i}) \<and>
          card S \<le> 2"
    if "i < ?n" and S: "S = successors ?m ?n i q"
      and target: "target = {b. b < ?n \<and> (\<exists>t. result q = Num t \<and> t \<in> fst ` set (blocks ! b))}"
      and fall: "fall = (if Suc i < ?n then {Suc i} else {})"
    for i S q target fall
  proof -
    have tp: "target_pos ?m q = target"
      unfolding target by (rule target_block_distinct[OF assms(2)])
    have c1: "card target \<le> 1" using card_target_pos[of ?m q] tp by simp
    have fin: "finite target" unfolding target by simp
    have fj: "S = (if target = {} then fall else target)" if "op q = ''j'' \<and> result q \<noteq> NoneV"
      using that unfolding S successors_def tp fall by (simp add: Let_def)
    have fjnz: "S = target \<union> fall" if "op q = ''jnz'' \<and> result q \<noteq> NoneV"
      using that unfolding S successors_def tp fall by (simp add: Let_def)
    have fo: "S = fall" if "\<not> ((op q = ''j'' \<or> op q = ''jnz'') \<and> result q \<noteq> NoneV)"
      using that unfolding S successors_def tp fall by (auto simp: Let_def)
    have shape: "S = target \<or> S = fall \<or> S = target \<union> fall"
      using fj fjnz fo by (metis (full_types))
    have cf: "card fall \<le> 1" unfolding fall by simp
    have ff: "finite fall" unfolding fall by simp
    have cu: "card (target \<union> fall) \<le> 2"
      using card_Un_le[of target fall] c1 cf by linarith
    have c2: "card S \<le> 2" using shape c1 cf cu by auto
    have ne: "S \<noteq> {}" if "Suc i < ?n"
    proof -
      have "fall \<noteq> {}" using that unfolding fall by simp
      then show ?thesis using fj fjnz fo by (metis (full_types) Un_empty)
    qed
    have ret: "S = {Suc i}" if "op q = ''RETURN'' \<and> Suc i < ?n"
    proof -
      have "\<not> ((op q = ''j'' \<or> op q = ''jnz'') \<and> result q \<noteq> NoneV)" using that by simp
      from fo[OF this] show ?thesis using that unfolding fall by simp
    qed
    have two: "card (target \<union> fall) = 2 \<longleftrightarrow> target \<noteq> {} \<and> Suc i < ?n \<and> target \<noteq> {Suc i}"
    proof (cases "target = {}")
      case True
      then show ?thesis using cf by auto
    next
      case False
      then obtain b where b: "target = {b}"
        using c1 fin by (metis card_1_singletonE card_gt_0_iff le_antisym less_one not_less One_nat_def Suc_leI)
      show ?thesis unfolding b fall by (auto simp: card_insert_if)
    qed
    show ?thesis using fj fjnz fo c2 ne ret two by (metis (no_types, lifting))
  qed
  have all: "\<forall>i < ?n.
       let q = snd (last (blocks ! i));
           target = {b. b < ?n \<and> (\<exists>t. result q = Num t \<and> t \<in> fst ` set (blocks ! b))};
           fall = (if Suc i < ?n then {Suc i} else {})
       in (Suc i < ?n \<longrightarrow> ?cfg ! i \<noteq> {}) \<and>
          (op q = ''jnz'' \<and> result q \<noteq> NoneV \<longrightarrow>
             ?cfg ! i = target \<union> fall \<and>
             (card (?cfg ! i) = 2 \<longleftrightarrow> target \<noteq> {} \<and> Suc i < ?n \<and> target \<noteq> {Suc i})) \<and>
          (op q = ''j'' \<and> result q \<noteq> NoneV \<longrightarrow> ?cfg ! i = (if target = {} then fall else target)) \<and>
          (\<not> ((op q = ''j'' \<or> op q = ''jnz'') \<and> result q \<noteq> NoneV) \<longrightarrow> ?cfg ! i = fall) \<and>
          (op q = ''RETURN'' \<and> Suc i < ?n \<longrightarrow> ?cfg ! i = {Suc i}) \<and>
          card (?cfg ! i) \<le> 2"
  proof (intro allI impI)
    fix i assume i: "i < ?n"
    have nth: "?cfg ! i = successors ?m ?n i (snd (last (blocks ! i)))" using i by simp
    show "let q = snd (last (blocks ! i));
           target = {b. b < ?n \<and> (\<exists>t. result q = Num t \<and> t \<in> fst ` set (blocks ! b))};
           fall = (if Suc i < ?n then {Suc i} else {})
       in (Suc i < ?n \<longrightarrow> ?cfg ! i \<noteq> {}) \<and>
          (op q = ''jnz'' \<and> result q \<noteq> NoneV \<longrightarrow>
             ?cfg ! i = target \<union> fall \<and>
             (card (?cfg ! i) = 2 \<longleftrightarrow> target \<noteq> {} \<and> Suc i < ?n \<and> target \<noteq> {Suc i})) \<and>
          (op q = ''j'' \<and> result q \<noteq> NoneV \<longrightarrow> ?cfg ! i = (if target = {} then fall else target)) \<and>
          (\<not> ((op q = ''j'' \<or> op q = ''jnz'') \<and> result q \<noteq> NoneV) \<longrightarrow> ?cfg ! i = fall) \<and>
          (op q = ''RETURN'' \<and> Suc i < ?n \<longrightarrow> ?cfg ! i = {Suc i}) \<and>
          card (?cfg ! i) \<le> 2"
      unfolding Let_def by (rule main[OF i nth refl refl])
  qed
  have len: "length ?cfg = length blocks" by simp
  show ?thesis
    by (rule exI[of _ ?cfg], intro conjI) (rule ok, rule len, rule all)
qed

theorem build_cfg_successors_witness:
  "(let blocks = [[(4, Quad ''='' (Num 5) NoneV (Str ''x'')), (5, Quad ''jnz'' (Str ''x'') NoneV (Num 7))],
                  [(6, Quad ''j'' NoneV NoneV (Num 4))],
                  [(7, Quad ''RETURN'' NoneV NoneV (Str ''$ret_reg''))]] :: block list
    in [] \<notin> set blocks \<and> distinct (map fst (concat blocks)) \<and>
       build_cfg blocks = Inr [{1, 2}, {0}, {}])"
proof -
  define blocks :: "block list" where "blocks =
              [[(4, Quad ''='' (Num 5) NoneV (Str ''x'')), (5, Quad ''jnz'' (Str ''x'') NoneV (Num 7))],
               [(6, Quad ''j'' NoneV NoneV (Num 4))],
               [(7, Quad ''RETURN'' NoneV NoneV (Str ''$ret_reg''))]]"
  have h1: "[] \<notin> set blocks" by (simp add: blocks_def)
  have h2: "distinct (map fst (concat blocks))" by (simp add: blocks_def)
  from build_cfg_successors[OF h1 h2]
  obtain cfg where c: "build_cfg blocks = Inr cfg \<and> length cfg = length blocks \<and>
    (\<forall>i < length blocks.
       let q = snd (last (blocks ! i));
           target = {b. b < length blocks \<and> (\<exists>t. result q = Num t \<and> t \<in> fst ` set (blocks ! b))};
           fall = (if Suc i < length blocks then {Suc i} else {})
       in (Suc i < length blocks \<longrightarrow> cfg ! i \<noteq> {}) \<and>
          (op q = ''jnz'' \<and> result q \<noteq> NoneV \<longrightarrow>
             cfg ! i = target \<union> fall \<and>
             (card (cfg ! i) = 2 \<longleftrightarrow> target \<noteq> {} \<and> Suc i < length blocks \<and> target \<noteq> {Suc i})) \<and>
          (op q = ''j'' \<and> result q \<noteq> NoneV \<longrightarrow> cfg ! i = (if target = {} then fall else target)) \<and>
          (\<not> ((op q = ''j'' \<or> op q = ''jnz'') \<and> result q \<noteq> NoneV) \<longrightarrow> cfg ! i = fall) \<and>
          (op q = ''RETURN'' \<and> Suc i < length blocks \<longrightarrow> cfg ! i = {Suc i}) \<and>
          card (cfg ! i) \<le> 2)" ..
  have c1: "build_cfg blocks = Inr cfg" by (rule c[THEN conjunct1])
  have ev: "build_cfg blocks = Inr [{1, 2}, {0}, {}]"
    by (simp add: blocks_def build_cfg_def successors_def idx_to_block_def tagged_def
        target_pos_def Quad_def insert_commute numeral_2_eq_2)
  have "cfg = [{1, 2}, {0}, {}]" using c1 ev by simp
  then have "build_cfg blocks = Inr [{1, 2}, {0}, {}]" using c1 by simp
  then show ?thesis using h1 h2 unfolding blocks_def Let_def by simp
qed

text \<open>
  Claim C5 as stated fails twice. A \<^verbatim>\<open>jnz\<close> whose target is the first quadruple of the
  following block has one successor although the fallthrough block exists, since the
  successors form a set. A function whose last quadruple is neither a jump nor a
  \<^verbatim>\<open>RETURN\<close> ends in a block without successors.
\<close>

theorem build_cfg_successors_counterexample:
  "(let blocks = block_split [(0, Quad ''jnz'' (Str ''x'') NoneV (Num 1)),
                              (1, Quad ''RETURN'' NoneV NoneV (Str ''$ret_reg''))]
    in length blocks = 2 \<and> op (snd (last (blocks ! 0))) = ''jnz'' \<and>
       build_cfg blocks = Inr [{1}, {}] \<and> card {1::nat} \<noteq> 2) \<and>
   (let blocks = block_split [(0, Quad ''='' (Num 5) NoneV (Str ''x''))]
    in length blocks = 1 \<and> op (snd (last (blocks ! 0))) \<noteq> ''RETURN'' \<and>
       build_cfg blocks = Inr [{}])"
proof -
  have s1: "block_starts [(0, Quad ''jnz'' (Str ''x'') NoneV (Num 1)),
                          (1, Quad ''RETURN'' NoneV NoneV (Str ''$ret_reg''))] = {0, 1}"
    by (simp add: block_starts_def add_starts_def is_jump_def Quad_def target_pos_def
        index_to_pos_def insert_commute)
  have b1: "block_split [(0, Quad ''jnz'' (Str ''x'') NoneV (Num 1)),
                         (1, Quad ''RETURN'' NoneV NoneV (Str ''$ret_reg''))] =
            [[(0, Quad ''jnz'' (Str ''x'') NoneV (Num 1))],
             [(1, Quad ''RETURN'' NoneV NoneV (Str ''$ret_reg''))]]"
    by (simp add: block_split_def s1 slice_def)
  have s2: "block_starts [(0, Quad ''='' (Num 5) NoneV (Str ''x''))] = {0}"
    by (simp add: block_starts_def add_starts_def is_jump_def Quad_def)
  have b2: "block_split [(0, Quad ''='' (Num 5) NoneV (Str ''x''))] =
            [[(0, Quad ''='' (Num 5) NoneV (Str ''x''))]]"
    by (simp add: block_split_def s2 slice_def)
  have c1: "build_cfg [[(0, Quad ''jnz'' (Str ''x'') NoneV (Num 1))],
             [(1, Quad ''RETURN'' NoneV NoneV (Str ''$ret_reg''))]] = Inr [{1}, {}]"
    by (simp add: build_cfg_def successors_def idx_to_block_def tagged_def target_pos_def Quad_def)
  have c2: "build_cfg [[(0, Quad ''='' (Num 5) NoneV (Str ''x''))]] = Inr [{}]"
    by (simp add: build_cfg_def successors_def idx_to_block_def tagged_def target_pos_def Quad_def)
  show ?thesis unfolding b1 b2 Let_def using c1 c2 by (simp add: Quad_def)
qed

section \<open>Properties of the stack frame builder\<close>







section \<open>Properties of the target code emitter\<close>










end
